theory Spec2Isabelle
  imports Main "HOL-Library.AList"
begin

section \<open>Strings as Python sees them\<close>

text \<open>
  A Python \<open>str\<close> is modelled as a \<open>string\<close> (a list of \<open>char\<close>), each \<open>char\<close> standing
  for the code point of the same number, so the model covers the code points below 256.
\<close>

definition LF :: char where
  "LF = CHR 0x0A"

text \<open>\<open>c.isspace()\<close> for the code points below 256; \<open>str.rstrip()\<close> strips exactly these.\<close>

definition isspace :: "char \<Rightarrow> bool" where
  "isspace c = (c = CHR 0x09 \<or> c = CHR 0x0A \<or> c = CHR 0x0B \<or> c = CHR 0x0C \<or> c = CHR 0x0D
     \<or> c = CHR 0x1C \<or> c = CHR 0x1D \<or> c = CHR 0x1E \<or> c = CHR 0x1F \<or> c = CHR 0x20
     \<or> c = CHR 0x85 \<or> c = CHR 0xA0)"

text \<open>\<open>s.rstrip()\<close>\<close>

definition rstrip :: "string \<Rightarrow> string" where
  "rstrip s = rev (dropWhile isspace (rev s))"

text \<open>\<open>s.startswith(p)\<close> and \<open>s.endswith(p)\<close>\<close>

definition startswith :: "string \<Rightarrow> string \<Rightarrow> bool" where
  "startswith s p = (take (length p) s = p)"

definition endswith :: "string \<Rightarrow> string \<Rightarrow> bool" where
  "endswith s p = (length p \<le> length s \<and> drop (length s - length p) s = p)"

text \<open>\<open>s.lower()\<close>: the letters A-Z, and the Latin-1 capitals but the multiplication sign.\<close>

definition lower_char :: "char \<Rightarrow> char" where
  "lower_char c =
     (let n = (of_char c :: nat)
      in if (65 \<le> n \<and> n \<le> 90) \<or> (192 \<le> n \<and> n \<le> 222 \<and> n \<noteq> 215)
         then char_of (n + 32) else c)"

definition lower :: "string \<Rightarrow> string" where
  "lower s = map lower_char s"

section \<open>The regular expressions of the program\<close>

text \<open>
  \<open>re.sub("[ \t]+.*$", "", s)\<close>. The scan goes from the left; at a space or a tab the
  pattern matches when no line feed stands between there and the end, but for a line feed
  that is the last character (\<open>.\<close> does not match a line feed, and \<open>$\<close> matches at the end
  and before a final line feed). The match runs to the end, or to that final line feed,
  which is kept.
\<close>

fun sub_blank_tail :: "string \<Rightarrow> string" where
  "sub_blank_tail [] = []"
| "sub_blank_tail (c # cs) =
     (if (c = CHR '' '' \<or> c = CHR 0x09) \<and> LF \<notin> set (butlast (c # cs))
      then (if last (c # cs) = LF then [LF] else [])
      else c # sub_blank_tail cs)"

text \<open>The two character classes of the mate suffix: \<open>[\/\.\_\-\:\;]\<close> and \<open>[012lrLRfrFR53]\<close>.\<close>

definition is_separator :: "char \<Rightarrow> bool" where
  "is_separator c = (c = CHR ''/'' \<or> c = CHR ''.'' \<or> c = CHR ''_'' \<or> c = CHR ''-''
     \<or> c = CHR '':'' \<or> c = CHR '';'')"

definition is_mate_marker :: "char \<Rightarrow> bool" where
  "is_mate_marker c = (c = CHR ''0'' \<or> c = CHR ''1'' \<or> c = CHR ''2'' \<or> c = CHR ''l''
     \<or> c = CHR ''r'' \<or> c = CHR ''L'' \<or> c = CHR ''R'' \<or> c = CHR ''f'' \<or> c = CHR ''F''
     \<or> c = CHR ''5'' \<or> c = CHR ''3'')"

text \<open>
  Whether \<open>[\/\.\_\-\:\;][012lrLRfrFR53]\'*$\<close> matches at the head of the string: a
  separator, a marker, apostrophes, and then the end or a final line feed.
\<close>

definition apostrophes_to_end :: "string \<Rightarrow> bool" where
  "apostrophes_to_end s =
     (let r = dropWhile (\<lambda>c. c = CHR 0x27) s in r = [] \<or> r = [LF])"

definition mate_suffix_here :: "string \<Rightarrow> bool" where
  "mate_suffix_here s =
     (case s of
        c # m # r \<Rightarrow> is_separator c \<and> is_mate_marker m \<and> apostrophes_to_end r
      | _ \<Rightarrow> False)"

text \<open>\<open>re.sub("[\/\.\_\-\:\;][012lrLRfrFR53]\'*$", "", s)\<close>\<close>

fun sub_mate_suffix :: "string \<Rightarrow> string" where
  "sub_mate_suffix [] = []"
| "sub_mate_suffix (c # cs) =
     (if mate_suffix_here (c # cs)
      then (if last (c # cs) = LF then [LF] else [])
      else c # sub_mate_suffix cs)"

text \<open>
  \<open>re.sub('.' + lit, '', s, flags=re.IGNORECASE)\<close> for a lower-case literal \<open>lit\<close>: the
  pattern of the program is not anchored and its dot is the wildcard, so every
  occurrence, anywhere, of a character other than a line feed followed by \<open>lit\<close> in
  either case is removed, from the left, without overlap.
\<close>

fun sub_any_then :: "string \<Rightarrow> string \<Rightarrow> string" where
  "sub_any_then lit [] = []"
| "sub_any_then lit (c # cs) =
     (if c \<noteq> LF \<and> length lit \<le> length cs \<and> lower (take (length lit) cs) = lit
      then sub_any_then lit (drop (length lit) cs)
      else c # sub_any_then lit cs)"

section \<open>parse_read_id\<close>

text \<open>\<open>''.join(s.rsplit('.', 1))\<close>: the last dot, when there is one, is removed.\<close>

definition drop_last_dot :: "string \<Rightarrow> string" where
  "drop_last_dot s = rev (remove1 (CHR ''.'') (rev s))"

definition parse_read_id :: "string \<Rightarrow> bool \<Rightarrow> string" where
  "parse_read_id header_line paired_end_flag =
     (let read_id = sub_blank_tail header_line
      in if paired_end_flag then sub_mate_suffix (drop_last_dot read_id) else read_id)"

section \<open>Files, messages and failures\<close>

text \<open>
  The file system maps a path to the text that reading the file yields (decoded, with the
  line ends already translated to line feeds, and decompressed for a \<open>.gz\<close> path); a
  path that cannot be opened is \<open>None\<close>. Iterating over an open file yields its lines,
  each with its line feed, the last one without when the text does not end in one: a
  line feed starts a line of the text behind it, any other character joins the first
  line of the text behind it.
\<close>

type_synonym filesystem = "string \<Rightarrow> string option"

definition add_char :: "char \<Rightarrow> string list \<Rightarrow> string list" where
  "add_char c rest =
     (if c = LF then [LF] # rest
      else (case rest of [] \<Rightarrow> [[c]] | l # ls \<Rightarrow> (c # l) # ls))"

fun file_lines :: "string \<Rightarrow> string list" where
  "file_lines [] = []"
| "file_lines (c # cs) = add_char c (file_lines cs)"

text \<open>What the program prints, one constructor for each \<open>print\<close> of the source.\<close>

datatype message =
    Reading_input "string option"
  | Reads_evaluated nat
  | Writing_output string
  | Reads_processed nat
  | No_reads_found int
  | Skipping nat
  | Done

text \<open>
  How a run can fail: a file that cannot be opened, a path that is \<open>None\<close> (the call
  \<open>readsfile.lower()\<close> raises), and the exit of \<open>merge_skip_ids\<close>, which prints the
  identifier it disagrees on and leaves with status -2.
\<close>

datatype error = IOError string | AttributeError | Mismatch_exit string

text \<open>
  A Python \<open>dict\<close> with its insertion order: \<open>d[k] = v\<close> is \<open>AList.update k v d\<close>, which
  replaces the value of a key in place and appends a new key at the end.
\<close>

type_synonym skip_dict = "(string \<times> bool) list"

definition keys :: "skip_dict \<Rightarrow> string list" where
  "keys d = map fst d"

definition has_key :: "skip_dict \<Rightarrow> string \<Rightarrow> bool" where
  "has_key d k = (k \<in> set (keys d))"

text \<open>\<open>sep.join(xs)\<close>\<close>

fun join :: "string \<Rightarrow> string list \<Rightarrow> string" where
  "join sep [] = []"
| "join sep [x] = x"
| "join sep (x # y # ys) = x @ sep @ join sep (y # ys)"

section \<open>get_skip_ids\<close>

text \<open>The variables the two reading loops share, and what they have printed.\<close>

record scan_state =
  this_id :: "string option"
  counter :: nat
  read_cnt :: nat
  printed :: "message list"

record skip_state = scan_state +
  these_skip_ids :: skip_dict

text \<open>One turn of the loop of \<open>get_skip_ids\<close>, on the line as the file yields it.\<close>

definition skip_step :: "int \<Rightarrow> bool \<Rightarrow> skip_state \<Rightarrow> string \<Rightarrow> skip_state" where
  "skip_step skip_len paired_end_flag s0 raw =
     (let line = rstrip raw;
          s1 = (if counter s0 = 4 then s0\<lparr>counter := 0\<rparr> else s0);
          s2 = (if startswith line ''@'' \<and> counter s1 = 0 then
                  (let s = s1\<lparr>this_id := Some (parse_read_id line paired_end_flag),
                              read_cnt := read_cnt s1 + 1\<rparr>
                   in if read_cnt s mod 1000000 = 0
                      then s\<lparr>printed := printed s @ [Reads_evaluated (read_cnt s)]\<rparr>
                      else s)
                else (case this_id s1 of
                        Some i \<Rightarrow>
                          (if int (length line) \<le> skip_len
                           then s1\<lparr>these_skip_ids := AList.update i True (these_skip_ids s1)\<rparr>
                           else s1)\<lparr>this_id := None\<rparr>
                      | None \<Rightarrow> s1))
      in s2\<lparr>counter := counter s2 + 1\<rparr>)"

definition skip_init :: "message list \<Rightarrow> skip_state" where
  "skip_init msgs =
     \<lparr>this_id = None, counter = 0, read_cnt = 0, printed = msgs, these_skip_ids = []\<rparr>"

text \<open>The loop over the lines of an open file, with the last \<open>print\<close>.\<close>

definition skip_scan :: "message list \<Rightarrow> string list \<Rightarrow> int \<Rightarrow> bool \<Rightarrow> skip_dict \<times> message list" where
  "skip_scan msgs ls skip_len paired_end_flag =
     (let s = foldl (skip_step skip_len paired_end_flag) (skip_init msgs) ls
      in (these_skip_ids s, printed s @ [Reads_evaluated (read_cnt s)]))"

definition open_read :: "filesystem \<Rightarrow> string option \<Rightarrow> error + string list" where
  "open_read fs readsfile =
     (case readsfile of
        None \<Rightarrow> Inl AttributeError
      | Some path \<Rightarrow>
          (case fs path of None \<Rightarrow> Inl (IOError path) | Some text \<Rightarrow> Inr (file_lines text)))"

definition get_skip_ids ::
  "filesystem \<Rightarrow> string option \<Rightarrow> int \<Rightarrow> bool \<Rightarrow> error + skip_dict \<times> message list" where
  "get_skip_ids fs readsfile skip_len paired_end_flag =
     (case open_read fs readsfile of
        Inl e \<Rightarrow> Inl e
      | Inr ls \<Rightarrow> Inr (skip_scan [Reading_input readsfile] ls skip_len paired_end_flag))"

section \<open>write_filtered_output\<close>

text \<open>
  The name of the output file (lines 112 to 129 of the source): \<open>read_direction\<close> is
  \<open>None\<close>, or the tag \<open>R1\<close> or \<open>R2\<close>.  The extension is used as a pattern as it
  stands, so its dot is the wildcard and the letters behind it (\<open>tl extension\<close>) are the
  literal; so is \<open>'.gz'\<close>.
\<close>

definition output_name :: "string \<Rightarrow> string option \<Rightarrow> string" where
  "output_name outputfile read_direction =
     (let gzip_output = endswith (lower outputfile) ''.gz''
      in case read_direction of
           None \<Rightarrow> outputfile
         | Some dir \<Rightarrow>
             (let f1 = (if gzip_output then sub_any_then ''gz'' outputfile else outputfile);
                  extension = (if endswith (lower f1) ''.fq'' then ''.fq'' else ''.fastq'');
                  f2 = sub_any_then (tl extension) f1;
                  f3 = f2 @ ''.'' @ dir @ extension
              in if gzip_output then f3 @ ''.gz'' else f3))"

record write_state = scan_state +
  read_buf :: "string list"
  skip_read :: bool
  out :: string

text \<open>One turn of the loop of \<open>write_filtered_output\<close>.\<close>

definition write_step :: "skip_dict \<Rightarrow> bool \<Rightarrow> write_state \<Rightarrow> string \<Rightarrow> write_state" where
  "write_step skip_ids paired_end_flag s0 raw =
     (let line = rstrip raw;
          s1 = (if counter s0 = 4 then
                  (let s = s0\<lparr>counter := 0\<rparr>;
                       s' = (if \<not> skip_read s
                             then s\<lparr>out := out s @ join [LF] (read_buf s) @ [LF]\<rparr> else s)
                   in s'\<lparr>read_buf := [], skip_read := False\<rparr>)
                else s0);
          s2 = (if startswith line ''@'' \<and> counter s1 = 0 then
                  (let i = parse_read_id line paired_end_flag;
                       s = s1\<lparr>this_id := Some i\<rparr>;
                       s' = (if has_key skip_ids i then s\<lparr>skip_read := True\<rparr> else s);
                       s'' = s'\<lparr>read_cnt := read_cnt s' + 1\<rparr>
                   in if read_cnt s'' mod 1000000 = 0
                      then s''\<lparr>printed := printed s'' @ [Reads_processed (read_cnt s'')]\<rparr>
                      else s'')
                else s1)
      in s2\<lparr>read_buf := read_buf s2 @ [line], counter := counter s2 + 1\<rparr>)"

definition write_init :: "message list \<Rightarrow> write_state" where
  "write_init msgs =
     \<lparr>this_id = None, counter = 0, read_cnt = 0, printed = msgs,
      read_buf = [], skip_read = False, out = []\<rparr>"

text \<open>
  The loop over the lines of the open input and the write after it (\<open>one more\<close> in the
  source), with the last \<open>print\<close>: the text written to the output file, and the messages.
\<close>

definition write_scan :: "message list \<Rightarrow> skip_dict \<Rightarrow> string list \<Rightarrow> bool \<Rightarrow> string \<times> message list" where
  "write_scan msgs skip_ids ls paired_end_flag =
     (let s = foldl (write_step skip_ids paired_end_flag) (write_init msgs) ls;
          text = (if \<not> skip_read s then out s @ join [LF] (read_buf s) @ [LF] else out s)
      in (text, printed s @ [Reads_processed (read_cnt s)]))"

text \<open>
  The output file is opened, and so emptied, before the input is opened; the function
  returns the name of the output file, and the model also the file system and the
  messages.
\<close>

definition write_filtered_output ::
  "filesystem \<Rightarrow> skip_dict \<Rightarrow> string \<Rightarrow> string option \<Rightarrow> bool \<Rightarrow> string option
     \<Rightarrow> error + string \<times> filesystem \<times> message list" where
  "write_filtered_output fs skip_ids outputfile readsfile paired_end_flag read_direction =
     (let this_outputfile = output_name outputfile read_direction;
          fs1 = fs(this_outputfile \<mapsto> [])
      in case open_read fs1 readsfile of
           Inl e \<Rightarrow> Inl e
         | Inr ls \<Rightarrow>
             (let (text, msgs) =
                    write_scan [Writing_output this_outputfile] skip_ids ls paired_end_flag
              in Inr (this_outputfile, fs1(this_outputfile \<mapsto> text), msgs)))"

section \<open>merge_skip_ids\<close>

text \<open>\<open>d[k]\<close> for a key of \<open>d\<close>; the source reads only keys it has just found.\<close>

definition lookup :: "skip_dict \<Rightarrow> string \<Rightarrow> bool option" where
  "lookup d k = map_of d k"

text \<open>The second loop: it stops at the first key the two dictionaries disagree on.\<close>

fun merge_new :: "skip_dict \<Rightarrow> skip_dict \<Rightarrow> (string \<times> bool) list \<Rightarrow> error + skip_dict" where
  "merge_new base merged [] = Inr merged"
| "merge_new base merged ((k, v) # new) =
     (if has_key base k \<and> lookup base k \<noteq> Some v then Inl (Mismatch_exit k)
      else merge_new base (AList.update k v merged) new)"

definition merge_skip_ids :: "skip_dict \<Rightarrow> skip_dict \<Rightarrow> error + skip_dict" where
  "merge_skip_ids base_skip_ids new_skip_ids =
     (let merged_skip_ids = foldl (\<lambda>m (k, v). AList.update k v m) [] base_skip_ids
      in merge_new base_skip_ids merged_skip_ids new_skip_ids)"

section \<open>main\<close>

text \<open>The arguments as \<open>getargs\<close> returns them; the length defaults to 25.\<close>

definition default_len :: int where
  "default_len = 25"

text \<open>The option \<open>--length\<close>, of type \<open>int\<close> and with \<open>default_len\<close> as its default.\<close>

definition length_option :: "int option \<Rightarrow> int" where
  "length_option given = (case given of None \<Rightarrow> default_len | Some n \<Rightarrow> n)"

record args =
  singleend :: bool
  pairedend :: bool
  interleaved :: bool
  forwardreads :: "string option"
  reversereads :: "string option"
  outputfile :: string
  length_arg :: int

definition truthy :: "string option \<Rightarrow> bool" where
  "truthy s = (case s of None \<Rightarrow> False | Some t \<Rightarrow> t \<noteq> [])"

text \<open>The first three lines of \<open>main\<close> after \<open>getargs\<close>: the skip set of the run.\<close>

definition run_skip_ids :: "args \<Rightarrow> filesystem \<Rightarrow> error + skip_dict \<times> message list" where
  "run_skip_ids a fs =
     (case get_skip_ids fs (forwardreads a) (length_arg a) (pairedend a) of
        Inl e \<Rightarrow> Inl e
      | Inr (skip_ids, msgs) \<Rightarrow>
          (if pairedend a \<and> \<not> interleaved a then
             (case get_skip_ids fs (reversereads a) (length_arg a) (pairedend a) of
                Inl e \<Rightarrow> Inl e
              | Inr (rev_ids, msgs') \<Rightarrow>
                  (case merge_skip_ids skip_ids rev_ids of
                     Inl e \<Rightarrow> Inl e
                   | Inr merged \<Rightarrow> Inr (merged, msgs @ msgs')))
           else Inr (skip_ids, msgs)))"

text \<open>The rest of \<open>main\<close>: the file system after the run, and what the run printed.\<close>

definition main :: "args \<Rightarrow> filesystem \<Rightarrow> error + filesystem \<times> message list" where
  "main a fs =
     (case run_skip_ids a fs of
        Inl e \<Rightarrow> Inl e
      | Inr (skip_ids, msgs) \<Rightarrow>
          (if skip_ids = [] then Inr (fs, msgs @ [No_reads_found (length_arg a), Done])
           else
             (let msgs1 = msgs @ [Skipping (length (keys skip_ids))];
                  read_direction = (if pairedend a \<and> \<not> interleaved a then Some ''R1'' else None)
              in case write_filtered_output fs skip_ids (outputfile a) (forwardreads a)
                        (pairedend a) read_direction of
                   Inl e \<Rightarrow> Inl e
                 | Inr (this_outputfile, fs1, msgs2) \<Rightarrow>
                     (if pairedend a \<and> truthy (reversereads a) then
                        (case write_filtered_output fs1 skip_ids (outputfile a) (reversereads a)
                                (pairedend a) (Some ''R2'') of
                           Inl e \<Rightarrow> Inl e
                         | Inr (this_outputfile', fs2, msgs3) \<Rightarrow>
                             Inr (fs2, msgs1 @ msgs2 @ msgs3 @ [Done]))
                      else Inr (fs1, msgs1 @ msgs2 @ [Done])))))"

section \<open>Records, and the words of the properties\<close>

text \<open>
  The loops count lines in fours: the records of a file are its lines four by four, and
  the lines left at the end, fewer than four, are a last record.
\<close>

fun records :: "'a list \<Rightarrow> 'a list list" where
  "records [] = []"
| "records [a] = [[a]]"
| "records [a, b] = [[a, b]]"
| "records [a, b, c] = [[a, b, c]]"
| "records [a, b, c, d] = [[a, b, c, d]]"
| "records (a # b # c # d # x # xs) = [a, b, c, d] # records (x # xs)"

definition header :: "string list \<Rightarrow> string" where
  "header r = (case r of [] \<Rightarrow> [] | h # _ \<Rightarrow> h)"

text \<open>The records of a file, from its text: the lines are stripped as the loops do.\<close>

abbreviation file_records :: "string \<Rightarrow> string list list" where
  "file_records body \<equiv> records (map rstrip (file_lines body))"

text \<open>The lines of a record as they are written: each followed by a line feed.\<close>

definition record_text :: "string list \<Rightarrow> string" where
  "record_text r = concat (map (\<lambda>l. l @ [LF]) r)"

text \<open>
  A record is skipped by the writing loop when its header starts with \<open>@\<close> and the
  identifier of the header is a key of the skip set.
\<close>

definition skipped :: "skip_dict \<Rightarrow> bool \<Rightarrow> string list \<Rightarrow> bool" where
  "skipped skip_ids paired r =
     (startswith (header r) ''@'' \<and> has_key skip_ids (parse_read_id (header r) paired))"

text \<open>The text of the records that are not skipped, in the order of the input.\<close>

definition kept_text :: "skip_dict \<Rightarrow> bool \<Rightarrow> string list \<Rightarrow> string" where
  "kept_text skip_ids paired ls =
     concat (map record_text
       (filter (\<lambda>r. \<not> skipped skip_ids paired r) (records (map rstrip ls))))"

text \<open>
  A record is short when its header starts with \<open>@\<close> and its sequence line, the second
  one, has at most \<open>skip_len\<close> characters; the reading loop notes the identifier of
  such a record.
\<close>

definition short_record :: "int \<Rightarrow> string list \<Rightarrow> bool" where
  "short_record skip_len r =
     (case r of h # q # _ \<Rightarrow> startswith h ''@'' \<and> int (length q) \<le> skip_len | _ \<Rightarrow> False)"

definition note_short :: "int \<Rightarrow> bool \<Rightarrow> skip_dict \<Rightarrow> string list \<Rightarrow> skip_dict" where
  "note_short skip_len paired d r =
     (if short_record skip_len r then AList.update (parse_read_id (header r) paired) True d
      else d)"

text \<open>What the writing loop would write if the input ended in the state \<open>s\<close>.\<close>

definition flush :: "write_state \<Rightarrow> string" where
  "flush s = (if \<not> skip_read s then out s @ join [LF] (read_buf s) @ [LF] else out s)"

text \<open>The states of the two loops at the start of a record.\<close>

definition fresh :: "write_state \<Rightarrow> bool" where
  "fresh s = (counter s = 0 \<and> read_buf s = [] \<and> \<not> skip_read s)"

definition idle :: "skip_state \<Rightarrow> bool" where
  "idle s = (counter s = 0 \<and> this_id s = None)"

text \<open>The values of a skip set are all \<open>True\<close>.\<close>

definition all_true :: "skip_dict \<Rightarrow> bool" where
  "all_true d = list_all snd d"

text \<open>
  A record is long when its sequence line has more than \<open>skip_len\<close> characters; a
  record without a sequence line has none that is too short.
\<close>

definition long_record :: "int \<Rightarrow> string list \<Rightarrow> bool" where
  "long_record skip_len r = (case r of h # q # _ \<Rightarrow> skip_len < int (length q) | _ \<Rightarrow> True)"

text \<open>
  A record meets a short one when its header starts with \<open>@\<close> and some record of the
  file, possibly itself, is short and has the same identifier.
\<close>

definition meets_short :: "int \<Rightarrow> bool \<Rightarrow> string list list \<Rightarrow> string list \<Rightarrow> bool" where
  "meets_short skip_len paired rs r =
     (startswith (header r) ''@'' \<and>
      (\<exists>x\<in>set rs. short_record skip_len x \<and>
         parse_read_id (header x) paired = parse_read_id (header r) paired))"

text \<open>
  The skip set that \<open>get_skip_ids\<close> returns for a file with the text \<open>body\<close>, and the
  text that \<open>write_filtered_output\<close> writes for it.
\<close>

definition skip_set :: "string \<Rightarrow> int \<Rightarrow> bool \<Rightarrow> skip_dict" where
  "skip_set body skip_len paired = fst (skip_scan [] (file_lines body) skip_len paired)"

definition written :: "skip_dict \<Rightarrow> string \<Rightarrow> bool \<Rightarrow> string" where
  "written skip_ids body paired = fst (write_scan [] skip_ids (file_lines body) paired)"

text \<open>
  Records in a row, as \<open>records\<close> makes them: all of four lines, but the last, which has
  one to four.
\<close>

fun chunked :: "'a list list \<Rightarrow> bool" where
  "chunked [] = True"
| "chunked [c] = (1 \<le> length c \<and> length c \<le> 4)"
| "chunked (c # d # cs) = (length c = 4 \<and> chunked (d # cs))"

text \<open>Lines written one after the other, each followed by a line feed.\<close>

definition unlines :: "string list \<Rightarrow> string" where
  "unlines ls = concat (map (\<lambda>l. l @ [LF]) ls)"

text \<open>A line without a line feed and without white space at its end.\<close>

definition clean :: "string \<Rightarrow> bool" where
  "clean l = (LF \<notin> set l \<and> rstrip l = l)"

section \<open>The outputs as the specification words them\<close>

text \<open>
  The writer as the specification words it: the records whose identifier is not in the
  skip set, with their lines as they appeared in the input, each ended by a line feed.
\<close>

definition terminated :: "string \<Rightarrow> string" where
  "terminated l = (if endswith l [LF] then l else l @ [LF])"

definition claimed_output :: "skip_dict \<Rightarrow> bool \<Rightarrow> string list \<Rightarrow> string" where
  "claimed_output skip_ids paired ls =
     concat (map (\<lambda>r. concat (map terminated r))
       (filter (\<lambda>r. \<not> has_key skip_ids (parse_read_id (rstrip (header r)) paired))
          (records ls)))"

text \<open>
  The single-end filter as the specification words it: the records whose sequence line
  is longer than the threshold.
\<close>

definition claimed_single_end :: "int \<Rightarrow> string list \<Rightarrow> string" where
  "claimed_single_end skip_len ls =
     concat (map record_text (filter (long_record skip_len) (records (map rstrip ls))))"



section \<open>Files for the examples\<close>

text \<open>A forward and a reverse file of two pairs: the first forward read and the second
  reverse read have at most five bases.\<close>

definition two_files :: filesystem where
  "two_files =
     [''fwd.fq'' \<mapsto> ''@a/1\<newline>ACGT\<newline>+\<newline>IIII\<newline>@b/1\<newline>ACGTACGT\<newline>+\<newline>IIIIIIII\<newline>'',
      ''rev.fq'' \<mapsto> ''@a/2\<newline>ACGTAC\<newline>+\<newline>IIIIII\<newline>@b/2\<newline>ACG\<newline>+\<newline>III\<newline>'']"

text \<open>A split paired-end run and a single-end run over these files.\<close>

definition paired_example :: "int \<Rightarrow> args" where
  "paired_example n =
     \<lparr>singleend = False, pairedend = True, interleaved = False,
      forwardreads = Some ''fwd.fq'', reversereads = Some ''rev.fq'',
      outputfile = ''out.fastq'', length_arg = n\<rparr>"

definition single_example :: "int \<Rightarrow> args" where
  "single_example n =
     \<lparr>singleend = True, pairedend = False, interleaved = False,
      forwardreads = Some ''fwd.fq'', reversereads = None,
      outputfile = ''out.fq'', length_arg = n\<rparr>"

text \<open>
  A file whose two records share the identifier before the blank, as the two mates of a
  fragment do in one interleaved file.
\<close>

definition mates_file :: filesystem where
  "mates_file =
     [''fwd.fq'' \<mapsto> ''@f1 1:N:0\<newline>ACGT\<newline>+\<newline>IIII\<newline>@f1 2:N:0\<newline>ACGTACGT\<newline>+\<newline>IIIIIIII\<newline>'']"





text \<open>A file of one record, of four bases.\<close>

definition one_short_file :: filesystem where
  "one_short_file = [''fwd.fq'' \<mapsto> ''@r1\<newline>ACGT\<newline>+\<newline>IIII\<newline>'']"

section \<open>The writing loop, record by record\<close>

lemma join_LF: "xs \<noteq> [] \<Longrightarrow> join [LF] xs @ [LF] = record_text xs"
  by (induction "[LF]" xs rule: join.induct) (simp_all add: record_text_def)

lemma write_step_counter: "counter s \<noteq> 4 \<Longrightarrow> counter (write_step k p s x) = Suc (counter s)"
  by (simp add: write_step_def Let_def)

lemma write_step_buf: "counter s \<noteq> 4 \<Longrightarrow> read_buf (write_step k p s x) = read_buf s @ [rstrip x]"
  by (simp add: write_step_def Let_def)

lemma write_step_out: "counter s \<noteq> 4 \<Longrightarrow> out (write_step k p s x) = out s"
  by (simp add: write_step_def Let_def)

lemma write_step_skip: "counter s \<noteq> 4 \<Longrightarrow> skip_read (write_step k p s x) =
   (skip_read s \<or> (counter s = 0 \<and> startswith (rstrip x) ''@'' \<and> has_key k (parse_read_id (rstrip x) p)))"
  by (auto simp add: write_step_def Let_def)

lemma write_step_reset: "counter s = 4 \<Longrightarrow>
   write_step k p s x = write_step k p (s\<lparr>counter := 0, read_buf := [], skip_read := False, out := flush s\<rparr>) x"
  by (simp add: write_step_def Let_def flush_def)

lemma write_steps_counter:
  "counter s + length ls \<le> 4 \<Longrightarrow> counter (foldl (write_step k p) s ls) = counter s + length ls"
  by (induction ls arbitrary: s) (simp_all add: write_step_counter)

lemma write_steps_buf:
  "counter s + length ls \<le> 4 \<Longrightarrow>
   read_buf (foldl (write_step k p) s ls) = read_buf s @ map rstrip ls"
  by (induction ls arbitrary: s) (simp_all add: write_step_counter write_step_buf)

lemma write_steps_out:
  "counter s + length ls \<le> 4 \<Longrightarrow> out (foldl (write_step k p) s ls) = out s"
  by (induction ls arbitrary: s) (simp_all add: write_step_counter write_step_out)

lemma write_steps_skip_later:
  "counter s + length ls \<le> 4 \<Longrightarrow> 0 < counter s \<Longrightarrow>
   skip_read (foldl (write_step k p) s ls) = skip_read s"
  by (induction ls arbitrary: s) (simp_all add: write_step_counter write_step_skip)

lemma write_steps_skip:
  "fresh s \<Longrightarrow> ls \<noteq> [] \<Longrightarrow> length ls \<le> 4 \<Longrightarrow>
   skip_read (foldl (write_step k p) s ls) = skipped k p (map rstrip ls)"
  by (cases ls)
     (simp_all add: fresh_def write_steps_skip_later write_step_counter write_step_skip
        skipped_def header_def)

lemma write_flush_short:
  assumes "fresh s" "ls \<noteq> []" "length ls \<le> 4"
  shows "flush (foldl (write_step k p) s ls) =
         out s @ (if skipped k p (map rstrip ls) then [] else record_text (map rstrip ls))"
proof -
  have c: "counter s + length ls \<le> 4" and b: "read_buf s = []"
    using assms by (simp_all add: fresh_def)
  show ?thesis
    unfolding flush_def
    using assms(2)
    by (simp add: write_steps_skip [OF assms] write_steps_out [OF c] write_steps_buf [OF c] b
        join_LF)
qed

lemma write_reset_fresh:
  "fresh (s\<lparr>counter := 0, read_buf := [], skip_read := False, out := t\<rparr>)"
  by (simp add: fresh_def)

lemma write_flush_records:
  "fresh s \<Longrightarrow> ls \<noteq> [] \<Longrightarrow>
   flush (foldl (write_step k p) s ls) =
   out s @ concat (map record_text (filter (\<lambda>r. \<not> skipped k p r) (records (map rstrip ls))))"
proof (induction ls arbitrary: s rule: records.induct)
  case (6 a b c d x xs)
  define s4 where "s4 = foldl (write_step k p) s [a, b, c, d]"
  define s0 where "s0 = s4\<lparr>counter := 0, read_buf := [], skip_read := False, out := flush s4\<rparr>"
  define rest where "rest = concat (map record_text
        (filter (\<lambda>r. \<not> skipped k p r) (records (map rstrip (x # xs)))))"
  have c4: "counter s4 = 4"
    unfolding s4_def
    using write_steps_counter [of s "[a, b, c, d]" k p] "6.prems"(1) by (simp add: fresh_def)
  have f4: "flush s4 = out s @ (if skipped k p (map rstrip [a, b, c, d]) then []
       else record_text (map rstrip [a, b, c, d]))"
    unfolding s4_def by (rule write_flush_short [OF "6.prems"(1)]) simp_all
  have "foldl (write_step k p) s (a # b # c # d # x # xs) =
        foldl (write_step k p) (write_step k p s4 x) xs"
    by (simp add: s4_def)
  also have "\<dots> = foldl (write_step k p) s0 (x # xs)"
    using write_step_reset [OF c4, of k p x] by (simp add: s0_def)
  finally have "flush (foldl (write_step k p) s (a # b # c # d # x # xs)) =
        flush (foldl (write_step k p) s0 (x # xs))"
    by simp
  also have "\<dots> = out s0 @ rest"
    unfolding rest_def s0_def by (rule "6.IH" [OF write_reset_fresh]) simp
  also have "out s0 = flush s4"
    by (simp add: s0_def)
  finally have "flush (foldl (write_step k p) s (a # b # c # d # x # xs)) =
     (out s @ (if skipped k p (map rstrip [a, b, c, d]) then []
       else record_text (map rstrip [a, b, c, d]))) @ rest"
    by (simp only: f4)
  moreover have "concat (map record_text (filter (\<lambda>r. \<not> skipped k p r)
       (records (map rstrip (a # b # c # d # x # xs))))) =
     (if skipped k p (map rstrip [a, b, c, d]) then []
       else record_text (map rstrip [a, b, c, d])) @ rest"
    by (simp add: rest_def)
  ultimately show ?case
    by (simp only: append_assoc)
next
  case 1
  then show ?case by simp
next
  case (2 v)
  then show ?case using write_flush_short [of s "[v]" k p] by simp
next
  case (3 v vb)
  then show ?case using write_flush_short [of s "[v, vb]" k p] by simp
next
  case (4 v vb vd)
  then show ?case using write_flush_short [of s "[v, vb, vd]" k p] by simp
next
  case (5 v vb vd vf)
  then show ?case using write_flush_short [of s "[v, vb, vd, vf]" k p] by simp
qed

lemma write_scan_text:
  "ls \<noteq> [] \<Longrightarrow> fst (write_scan msgs k ls p) = kept_text k p ls"
  using write_flush_records [of "write_init msgs" ls k p]
  by (simp add: write_scan_def Let_def flush_def fresh_def write_init_def kept_text_def)

lemma write_scan_empty: "fst (write_scan msgs k [] p) = [LF]"
  by (simp add: write_scan_def write_init_def)

lemma skip_step_counter: "counter s \<noteq> 4 \<Longrightarrow> counter (skip_step T p s x) = Suc (counter s)"
  by (simp add: skip_step_def Let_def split: option.splits)

lemma skip_step_reset:
  "counter s = 4 \<Longrightarrow> skip_step T p s x = skip_step T p (s\<lparr>counter := 0\<rparr>) x"
  by (simp add: skip_step_def Let_def)

lemma skip_step_head_id:
  "idle s \<Longrightarrow> this_id (skip_step T p s x) =
     (if startswith (rstrip x) ''@'' then Some (parse_read_id (rstrip x) p) else None)"
  by (simp add: skip_step_def Let_def idle_def)

lemma skip_step_head_ids:
  "idle s \<Longrightarrow> these_skip_ids (skip_step T p s x) = these_skip_ids s"
  by (simp add: skip_step_def Let_def idle_def)

lemma skip_step_later_id:
  "counter s \<noteq> 0 \<Longrightarrow> counter s \<noteq> 4 \<Longrightarrow> this_id (skip_step T p s x) = None"
  by (simp add: skip_step_def Let_def split: option.splits)

lemma skip_step_later_ids:
  "counter s \<noteq> 0 \<Longrightarrow> counter s \<noteq> 4 \<Longrightarrow> these_skip_ids (skip_step T p s x) =
     (case this_id s of
        Some i \<Rightarrow> if int (length (rstrip x)) \<le> T then AList.update i True (these_skip_ids s)
                  else these_skip_ids s
      | None \<Rightarrow> these_skip_ids s)"
  by (simp add: skip_step_def Let_def split: option.splits)

section \<open>The reading loop, record by record\<close>

lemma skip_steps_quiet:
  "this_id s = None \<Longrightarrow> 0 < counter s \<Longrightarrow> counter s + length ls \<le> 4 \<Longrightarrow>
   these_skip_ids (foldl (skip_step T p) s ls) = these_skip_ids s \<and>
   this_id (foldl (skip_step T p) s ls) = None \<and>
   counter (foldl (skip_step T p) s ls) = counter s + length ls"
  by (induction ls arbitrary: s)
     (simp_all add: skip_step_counter skip_step_later_id skip_step_later_ids)

lemma skip_steps_two:
  assumes "idle s"
  shows "these_skip_ids (skip_step T p (skip_step T p s a) b) =
           note_short T p (these_skip_ids s) [rstrip a, rstrip b]"
    and "this_id (skip_step T p (skip_step T p s a) b) = None"
    and "counter (skip_step T p (skip_step T p s a) b) = 2"
proof -
  have c: "counter s = 0" using assms by (simp add: idle_def)
  have c1: "counter (skip_step T p s a) = 1" by (simp add: skip_step_counter c)
  show "these_skip_ids (skip_step T p (skip_step T p s a) b) =
           note_short T p (these_skip_ids s) [rstrip a, rstrip b]"
    by (simp add: skip_step_later_ids c1 skip_step_head_id [OF assms]
        skip_step_head_ids [OF assms] note_short_def short_record_def header_def)
  show "this_id (skip_step T p (skip_step T p s a) b) = None"
    by (simp add: skip_step_later_id c1)
  show "counter (skip_step T p (skip_step T p s a) b) = 2"
    by (simp add: skip_step_counter c1)
qed

lemma note_short_tail:
  "note_short T p d (a # b # c # r) = note_short T p d [a, b]"
  by (simp add: note_short_def short_record_def header_def)

lemma skip_steps_from_two:
  assumes "idle s" "length r \<le> 2"
  shows "these_skip_ids (foldl (skip_step T p) s (a # b # r)) =
           note_short T p (these_skip_ids s) [rstrip a, rstrip b]"
proof -
  define s2 where "s2 = skip_step T p (skip_step T p s a) b"
  have i2: "this_id s2 = None" and c2: "counter s2 = 2"
    unfolding s2_def by (rule skip_steps_two [OF assms(1)])+
  have "these_skip_ids (foldl (skip_step T p) s2 r) = these_skip_ids s2"
    using skip_steps_quiet [OF i2, of r T p] c2 assms(2) by simp
  moreover have "these_skip_ids s2 = note_short T p (these_skip_ids s) [rstrip a, rstrip b]"
    unfolding s2_def by (rule skip_steps_two [OF assms(1)])
  moreover have "foldl (skip_step T p) s (a # b # r) = foldl (skip_step T p) s2 r"
    by (simp add: s2_def)
  ultimately show ?thesis by simp
qed

lemma skip_steps_short:
  assumes "idle s" "length ls \<le> 4"
  shows "these_skip_ids (foldl (skip_step T p) s ls) =
           note_short T p (these_skip_ids s) (map rstrip ls)"
proof (cases ls)
  case Nil
  then show ?thesis by (simp add: note_short_def short_record_def)
next
  case outer: (Cons a r)
  show ?thesis
  proof (cases r)
    case Nil
    show ?thesis
      unfolding outer Nil
      by (simp add: skip_step_head_ids [OF assms(1)] note_short_def short_record_def)
  next
    case (Cons b r')
    have "length r' \<le> 2" using assms(2) outer Cons by simp
    from skip_steps_from_two [OF assms(1) this, of T p a b]
    show ?thesis
      unfolding outer Cons by (cases r') (simp_all add: note_short_tail)
  qed
qed

lemma skip_steps_four:
  assumes "idle s"
  shows "this_id (foldl (skip_step T p) s [a, b, c, d]) = None"
    and "counter (foldl (skip_step T p) s [a, b, c, d]) = 4"
proof -
  define s2 where "s2 = skip_step T p (skip_step T p s a) b"
  have "this_id (foldl (skip_step T p) s2 [c, d]) = None \<and>
        counter (foldl (skip_step T p) s2 [c, d]) = counter s2 + length [c, d]"
    using skip_steps_quiet [of s2 "[c, d]" T p] skip_steps_two(2,3) [OF assms, of T p a b]
    by (simp add: s2_def)
  then show "this_id (foldl (skip_step T p) s [a, b, c, d]) = None"
    and "counter (foldl (skip_step T p) s [a, b, c, d]) = 4"
    using skip_steps_two(3) [OF assms, of T p a b] by (simp_all add: s2_def)
qed

lemma skip_ids_records:
  "idle s \<Longrightarrow>
   these_skip_ids (foldl (skip_step T p) s ls) =
   foldl (note_short T p) (these_skip_ids s) (records (map rstrip ls))"
proof (induction ls arbitrary: s rule: records.induct)
  case (6 a b c d x xs)
  define s4 where "s4 = foldl (skip_step T p) s [a, b, c, d]"
  have c4: "counter s4 = 4" and i4: "this_id s4 = None"
    unfolding s4_def using skip_steps_four [OF "6.prems"] by simp_all
  have d4: "these_skip_ids s4 = note_short T p (these_skip_ids s) (map rstrip [a, b, c, d])"
    unfolding s4_def by (rule skip_steps_short [OF "6.prems"]) simp
  have idle0: "idle (s4\<lparr>counter := 0\<rparr>)"
    using i4 by (simp add: idle_def)
  have "foldl (skip_step T p) s (a # b # c # d # x # xs) =
        foldl (skip_step T p) (skip_step T p s4 x) xs"
    by (simp add: s4_def)
  also have "\<dots> = foldl (skip_step T p) (s4\<lparr>counter := 0\<rparr>) (x # xs)"
    using skip_step_reset [OF c4, of T p x] by simp
  finally have "these_skip_ids (foldl (skip_step T p) s (a # b # c # d # x # xs)) =
     these_skip_ids (foldl (skip_step T p) (s4\<lparr>counter := 0\<rparr>) (x # xs))"
    by simp
  also have "\<dots> = foldl (note_short T p) (these_skip_ids (s4\<lparr>counter := 0\<rparr>))
       (records (map rstrip (x # xs)))"
    by (rule "6.IH" [OF idle0])
  finally show ?case
    by (simp add: d4)
next
  case 1
  then show ?case by simp
next
  case (2 v)
  then show ?case using skip_steps_short [of s "[v]" T p] by simp
next
  case (3 v vb)
  then show ?case using skip_steps_short [of s "[v, vb]" T p] by simp
next
  case (4 v vb vd)
  then show ?case using skip_steps_short [of s "[v, vb, vd]" T p] by simp
next
  case (5 v vb vd vf)
  then show ?case using skip_steps_short [of s "[v, vb, vd, vf]" T p] by simp
qed

lemma skip_scan_records:
  "fst (skip_scan msgs ls T p) = foldl (note_short T p) [] (records (map rstrip ls))"
  using skip_ids_records [of "skip_init msgs" T p ls]
  by (simp add: skip_scan_def Let_def idle_def skip_init_def)

lemma keys_update: "set (keys (AList.update k v d)) = insert k (set (keys d))"
  by (simp add: keys_def update_keys image_iff) (auto simp: image_iff)

lemma keys_note_shorts:
  "set (keys (foldl (note_short T p) d rs)) =
   set (keys d) \<union> {parse_read_id (header r) p |r. r \<in> set rs \<and> short_record T r}"
  by (induction rs arbitrary: d) (auto simp: note_short_def keys_update)

section \<open>Merging two skip sets\<close>

lemma keys_Cons: "keys (kv # d) = fst kv # keys d"
  by (simp add: keys_def)

lemma update_subset: "set (AList.update k v d) \<subseteq> insert (k, v) (set d)"
  by (induction d) auto

lemma all_true_update: "all_true d \<Longrightarrow> all_true (AList.update k True d)"
  using update_subset [of k True d] by (auto simp: all_true_def list_all_iff)

lemma all_true_note_shorts: "all_true d \<Longrightarrow> all_true (foldl (note_short T p) d rs)"
  by (induction rs arbitrary: d) (simp_all add: note_short_def all_true_update)

lemma all_true_skip_scan: "all_true (fst (skip_scan msgs ls T p))"
proof -
  have "all_true []" by (simp add: all_true_def)
  then show ?thesis by (simp add: skip_scan_records all_true_note_shorts)
qed

lemma all_true_lookup: "all_true d \<Longrightarrow> has_key d k \<Longrightarrow> lookup d k = Some True"
proof -
  assume a: "all_true d" and h: "has_key d k"
  from h obtain v where v: "map_of d k = Some v"
    by (auto simp: has_key_def keys_def weak_map_of_SomeI dest: weak_map_of_SomeI)
  then have "(k, v) \<in> set d" by (rule map_of_SomeD)
  with a have "v" by (auto simp: all_true_def list_all_iff)
  with v show ?thesis by (simp add: lookup_def)
qed

lemma merge_new_all_true:
  "all_true base \<Longrightarrow> all_true new \<Longrightarrow>
   \<exists>m. merge_new base merged new = Inr m \<and> set (keys m) = set (keys merged) \<union> set (keys new)"
proof (induction new arbitrary: merged)
  case Nil
  then show ?case by (simp add: keys_def)
next
  case (Cons kv new)
  obtain k v where kv: "kv = (k, v)" by (cases kv)
  from Cons.prems(2) have v: "v" and rest: "all_true new"
    by (simp_all add: all_true_def kv)
  have ok: "\<not> (has_key base k \<and> lookup base k \<noteq> Some v)"
    using all_true_lookup [OF Cons.prems(1)] v by auto
  from Cons.IH [OF Cons.prems(1) rest, of "AList.update k v merged"]
  show ?case
    using ok by (auto simp: kv keys_update keys_Cons)
qed

lemma keys_copy: "set (keys (foldl (\<lambda>m (k, v). AList.update k v m) d base)) = set (keys d) \<union> set (keys base)"
  by (induction base arbitrary: d) (simp_all add: keys_update keys_Cons split_beta, simp add: keys_def)

lemma merge_skip_ids_all_true:
  "all_true a \<Longrightarrow> all_true b \<Longrightarrow>
   \<exists>m. merge_skip_ids a b = Inr m \<and> set (keys m) = set (keys a) \<union> set (keys b)"
  using merge_new_all_true [of a b "foldl (\<lambda>m (k, v). AList.update k v m) [] a"]
  by (simp add: merge_skip_ids_def keys_copy) (simp add: keys_def)

lemma get_skip_ids_all_true: "get_skip_ids fs f T p = Inr (a, msgs) \<Longrightarrow> all_true a"
proof -
  assume g: "get_skip_ids fs f T p = Inr (a, msgs)"
  then obtain ls where "skip_scan [Reading_input f] ls T p = (a, msgs)"
    by (auto simp: get_skip_ids_def split: sum.splits)
  then have "a = fst (skip_scan [Reading_input f] ls T p)" by simp
  then show ?thesis by (simp only: all_true_skip_scan)
qed

section \<open>Runs of the program\<close>

lemma get_skip_ids_file:
  "fs f = Some body \<Longrightarrow>
   get_skip_ids fs (Some f) T p = Inr (skip_scan [Reading_input (Some f)] (file_lines body) T p)"
  by (simp add: get_skip_ids_def open_read_def)

lemma write_filtered_output_file:
  "fs f = Some body \<Longrightarrow> output_name ofile d \<noteq> f \<Longrightarrow>
   write_filtered_output fs k ofile (Some f) p d =
     Inr (output_name ofile d,
          fs(output_name ofile d \<mapsto>
               fst (write_scan [Writing_output (output_name ofile d)] k (file_lines body) p)),
          snd (write_scan [Writing_output (output_name ofile d)] k (file_lines body) p))"
  by (simp add: write_filtered_output_def open_read_def Let_def split_beta)

lemma long_not_short: "long_record T r \<Longrightarrow> \<not> short_record T r"
  by (auto simp: long_record_def short_record_def split: list.splits)

lemma note_shorts_none:
  "\<forall>r\<in>set rs. \<not> short_record T r \<Longrightarrow> foldl (note_short T p) d rs = d"
  by (induction rs arbitrary: d) (simp_all add: note_short_def)

lemma note_shorts_some:
  "\<exists>r\<in>set rs. short_record T r \<Longrightarrow> foldl (note_short T p) d rs \<noteq> []"
  using keys_note_shorts [of T p d rs] by (auto simp: keys_def)

lemma skip_scan_none:
  "\<forall>r\<in>set (records (map rstrip ls)). long_record T r \<Longrightarrow> fst (skip_scan msgs ls T p) = []"
  by (simp add: skip_scan_records note_shorts_none long_not_short)

lemma merge_skip_ids_empty: "merge_skip_ids [] [] = Inr []"
  by (simp add: merge_skip_ids_def)

lemma run_skip_ids_none:
  assumes "forwardreads a = Some f" "fs f = Some tf"
    and "\<forall>x\<in>set (records (map rstrip (file_lines tf))). long_record (length_arg a) x"
    and "pairedend a \<and> \<not> interleaved a \<Longrightarrow>
         reversereads a = Some r \<and> fs r = Some tr \<and>
         (\<forall>x\<in>set (records (map rstrip (file_lines tr))). long_record (length_arg a) x)"
  shows "\<exists>msgs. run_skip_ids a fs = Inr ([], msgs)"
proof -
  have "get_skip_ids fs (Some f) (length_arg a) (pairedend a) =
      Inr (skip_scan [Reading_input (Some f)] (file_lines tf) (length_arg a) (pairedend a))"
    using assms(2) by (rule get_skip_ids_file)
  then obtain m1 where
    g1: "get_skip_ids fs (forwardreads a) (length_arg a) (pairedend a) = Inr ([], m1)"
    using skip_scan_none [OF assms(3)] by (simp add: assms(1)) (metis prod.collapse)
  show ?thesis
  proof (cases "pairedend a \<and> \<not> interleaved a")
    case False
    then show ?thesis using g1 by (auto simp: run_skip_ids_def)
  next
    case True
    from assms(4) [OF True] have r: "reversereads a = Some r" and t: "fs r = Some tr"
      and l: "\<forall>x\<in>set (records (map rstrip (file_lines tr))). long_record (length_arg a) x"
      by simp_all
    have "get_skip_ids fs (Some r) (length_arg a) (pairedend a) =
        Inr (skip_scan [Reading_input (Some r)] (file_lines tr) (length_arg a) (pairedend a))"
      using t by (rule get_skip_ids_file)
    then obtain m2 where g2:
      "get_skip_ids fs (reversereads a) (length_arg a) (pairedend a) = Inr ([], m2)"
      using skip_scan_none [OF l] by (simp add: r) (metis prod.collapse)
    show ?thesis
      using True g1 g2 by (simp add: run_skip_ids_def merge_skip_ids_empty)
  qed
qed

lemma has_key_skip_scan:
  "has_key (fst (skip_scan msgs ls T p)) i \<longleftrightarrow>
   (\<exists>r\<in>set (records (map rstrip ls)). short_record T r \<and> parse_read_id (header r) p = i)"
  using keys_note_shorts [of T p "[]" "records (map rstrip ls)"]
  by (auto simp: has_key_def skip_scan_records keys_def)

lemma skipped_skip_scan:
  "skipped (fst (skip_scan msgs ls T p)) p r = meets_short T p (records (map rstrip ls)) r"
  by (auto simp: skipped_def meets_short_def has_key_skip_scan)

lemma kept_text_skip_scan:
  "kept_text (fst (skip_scan msgs ls T p)) p ls =
   concat (map record_text
     (filter (\<lambda>r. \<not> meets_short T p (records (map rstrip ls)) r) (records (map rstrip ls))))"
  by (simp add: kept_text_def skipped_skip_scan)

lemma records_Nil: "records ls = [] \<longleftrightarrow> ls = []"
  by (induction ls rule: records.induct) simp_all

lemma main_single_end_text:
  assumes "\<not> pairedend a" "forwardreads a = Some f" "fs f = Some body" "outputfile a \<noteq> f"
    and "\<exists>r\<in>set (records (map rstrip (file_lines body))). short_record (length_arg a) r"
  shows "\<exists>msgs. main a fs =
     Inr (fs(outputfile a \<mapsto>
            kept_text (fst (skip_scan [Reading_input (Some f)] (file_lines body) (length_arg a) False))
              False (file_lines body)), msgs)"
proof -
  obtain k m where sc:
    "skip_scan [Reading_input (Some f)] (file_lines body) (length_arg a) False = (k, m)"
    by (cases "skip_scan [Reading_input (Some f)] (file_lines body) (length_arg a) False")
  have g: "get_skip_ids fs (Some f) (length_arg a) False = Inr (k, m)"
    unfolding sc [symmetric] using assms(3) by (rule get_skip_ids_file)
  have run: "run_skip_ids a fs = Inr (k, m)"
    using g assms(1,2) by (simp add: run_skip_ids_def)
  have "fst (skip_scan [Reading_input (Some f)] (file_lines body) (length_arg a) False) \<noteq> []"
    unfolding skip_scan_records by (rule note_shorts_some [OF assms(5)])
  then have ne: "k \<noteq> []"
    by (simp add: sc)
  have ls: "file_lines body \<noteq> []"
    using assms(5) records_Nil [of "map rstrip (file_lines body)"] by auto
  have n: "output_name (outputfile a) None \<noteq> f"
    using assms(4) by (simp add: output_name_def)
  have w: "write_filtered_output fs k (outputfile a) (Some f) False None =
     Inr (outputfile a,
          fs(outputfile a \<mapsto> kept_text k False (file_lines body)),
          snd (write_scan [Writing_output (outputfile a)] k (file_lines body) False))"
    using write_filtered_output_file [of fs f body "outputfile a" None k False, OF assms(3) n]
    by (simp add: output_name_def write_scan_text [OF ls])
  show ?thesis
    using ne assms(1,2) by (simp add: main_def Let_def run w sc)
qed

lemma short_iff_not_long:
  "startswith (header r) ''@'' \<Longrightarrow> 2 \<le> length r \<Longrightarrow> short_record T r \<longleftrightarrow> \<not> long_record T r"
  by (cases r; cases "tl r") (auto simp: short_record_def long_record_def header_def)

lemma meets_short_distinct:
  assumes "\<forall>r\<in>set rs. startswith (header r) ''@'' \<and> 2 \<le> length r"
    and "inj_on (\<lambda>r. parse_read_id (header r) p) (set rs)"
    and "r \<in> set rs"
  shows "meets_short T p rs r \<longleftrightarrow> \<not> long_record T r"
proof -
  have wf: "startswith (header r) ''@''" "2 \<le> length r"
    using assms(1,3) by auto
  have "meets_short T p rs r \<longleftrightarrow> short_record T r"
  proof
    assume "meets_short T p rs r"
    then obtain x where x: "x \<in> set rs" "short_record T x"
      "parse_read_id (header x) p = parse_read_id (header r) p"
      by (auto simp: meets_short_def)
    from assms(2) x(1) assms(3) x(3) have "x = r"
      by (simp add: inj_on_def)
    with x(2) show "short_record T r" by simp
  next
    assume "short_record T r"
    with assms(3) wf(1) show "meets_short T p rs r"
      by (auto simp: meets_short_def)
  qed
  with short_iff_not_long [OF wf] show ?thesis by simp
qed

lemma filter_meets_short_distinct:
  assumes "\<forall>r\<in>set rs. startswith (header r) ''@'' \<and> 2 \<le> length r"
    and "inj_on (\<lambda>r. parse_read_id (header r) p) (set rs)"
  shows "filter (\<lambda>r. \<not> meets_short T p rs r) rs = filter (long_record T) rs"
  by (rule filter_cong [OF refl]) (simp add: meets_short_distinct [OF assms])

lemma main_none:
  "run_skip_ids a fs = Inr ([], msgs) \<Longrightarrow>
   main a fs = Inr (fs, msgs @ [No_reads_found (length_arg a), Done])"
  by (simp add: main_def)

lemma output_name_tags:
  "output_name ofile (Some ''R1'') \<noteq> output_name ofile (Some ''R2'')"
  by (simp add: output_name_def Let_def)

lemma has_key_merged:
  assumes "merge_skip_ids k1 k2 = Inr m" "all_true k1" "all_true k2"
  shows "has_key m i \<longleftrightarrow> has_key k1 i \<or> has_key k2 i"
  using merge_skip_ids_all_true [OF assms(2,3)] assms(1) by (auto simp: has_key_def)

lemma meets_short_append:
  "meets_short T p (xs @ ys) x \<longleftrightarrow> meets_short T p xs x \<or> meets_short T p ys x"
  by (auto simp: meets_short_def)




section \<open>Reading what has been written\<close>

lemma chunked_Cons4: "length c = 4 \<Longrightarrow> chunked cs \<Longrightarrow> chunked (c # cs)"
  by (cases cs) simp_all

lemma chunked_records: "chunked (records xs)"
  by (induction xs rule: records.induct) (simp_all add: chunked_Cons4)

lemma chunked_filter: "chunked cs \<Longrightarrow> chunked (filter P cs)"
proof (induction cs rule: chunked.induct)
  case 1
  then show ?case by simp
next
  case (2 c)
  then show ?case by simp
next
  case (3 c d cs)
  then have l: "length c = 4" and ih: "chunked (filter P (d # cs))" by simp_all
  show ?case
  proof (cases "P c")
    case True
    then have e: "filter P (c # d # cs) = c # filter P (d # cs)" by simp
    show ?thesis unfolding e by (rule chunked_Cons4 [OF l ih])
  next
    case False
    then have e: "filter P (c # d # cs) = filter P (d # cs)" by simp
    show ?thesis unfolding e by (rule ih)
  qed
qed

lemma records_short: "1 \<le> length c \<Longrightarrow> length c \<le> 4 \<Longrightarrow> records c = [c]"
  by (cases c rule: records.cases) simp_all

lemma chunked_head: "chunked (d # cs) \<Longrightarrow> d \<noteq> []"
  by (cases cs) auto

lemma records_concat: "chunked cs \<Longrightarrow> records (concat cs) = cs"
proof (induction cs rule: chunked.induct)
  case 1
  then show ?case by simp
next
  case (2 c)
  then show ?case by (simp add: records_short)
next
  case (3 c d cs)
  then have l: "length c = 4" and ch: "chunked (d # cs)" by simp_all
  from l obtain w x y z where c: "c = [w, x, y, z]"
    by (cases c rule: records.cases) simp_all
  from chunked_head [OF ch] obtain v vs where "concat (d # cs) = v # vs"
    by (cases d) auto
  then have "records (concat (c # d # cs)) = c # records (concat (d # cs))"
    by (simp add: c)
  with "3.IH" ch show ?case by simp
qed

lemma file_lines_line:
  "LF \<notin> set l \<Longrightarrow> file_lines (l @ LF # rest) = (l @ [LF]) # file_lines rest"
  by (induction l) (auto simp: add_char_def)

lemma file_lines_unlines:
  "\<forall>l\<in>set ls. LF \<notin> set l \<Longrightarrow> file_lines (unlines ls) = map (\<lambda>l. l @ [LF]) ls"
  by (induction ls) (simp_all add: unlines_def file_lines_line)

lemma file_lines_butlast: "l \<in> set (file_lines body) \<Longrightarrow> LF \<notin> set (butlast l)"
proof (induction body arbitrary: l)
  case Nil
  then show ?case by simp
next
  case (Cons c body)
  then show ?case
    by (auto simp: add_char_def split: if_splits list.splits)
qed

lemma isspace_LF: "isspace LF"
  by (simp add: isspace_def LF_def)

lemma rstrip_snoc: "rstrip (l @ [c]) = (if isspace c then rstrip l else l @ [c])"
  by (simp add: rstrip_def)

lemma set_rstrip: "set (rstrip l) \<subseteq> set l"
  using set_dropWhileD [of _ isspace "rev l"] by (auto simp: rstrip_def)

lemma rstrip_no_LF: "LF \<notin> set (butlast l) \<Longrightarrow> LF \<notin> set (rstrip l)"
proof (cases l rule: rev_cases)
  case Nil
  then show ?thesis by (simp add: rstrip_def)
next
  case (snoc xs x)
  assume "LF \<notin> set (butlast l)"
  then have "LF \<notin> set xs" by (simp add: snoc)
  then show ?thesis
    using set_rstrip [of xs] isspace_LF by (auto simp: snoc rstrip_snoc)
qed

lemma rstrip_idem: "rstrip (rstrip l) = rstrip l"
  by (simp add: rstrip_def dropWhile_idem)

lemma clean_rstrip_line: "l \<in> set (file_lines body) \<Longrightarrow> clean (rstrip l)"
  by (simp add: clean_def rstrip_idem rstrip_no_LF file_lines_butlast)

lemma rstrip_clean_LF: "clean l \<Longrightarrow> rstrip (l @ [LF]) = l"
  by (simp add: rstrip_snoc isspace_LF clean_def)

lemma concat_records: "concat (records xs) = xs"
  by (induction xs rule: records.induct) simp_all

lemma unlines_concat: "concat (map record_text rs) = unlines (concat rs)"
  by (induction rs) (simp_all add: record_text_def unlines_def)

lemma unlines_Nil: "unlines ls = [] \<longleftrightarrow> ls = []"
  by (cases ls) (simp_all add: unlines_def)

lemma not_skipped_empty: "\<not> skipped [] p r"
  by (simp add: skipped_def has_key_def keys_def)

lemma second_pass:
  assumes "\<forall>l\<in>set K. clean l" "chunked Rk" "concat Rk = K"
    and "\<forall>r\<in>set Rk. \<not> short_record T r"
  shows "fst (skip_scan m (file_lines (unlines K)) T p) = []"
    and "K \<noteq> [] \<Longrightarrow> fst (write_scan m' [] (file_lines (unlines K)) p) = unlines K"
proof -
  have nl: "\<forall>l\<in>set K. LF \<notin> set l"
    using assms(1) by (simp add: clean_def)
  have fl: "file_lines (unlines K) = map (\<lambda>l. l @ [LF]) K"
    by (rule file_lines_unlines [OF nl])
  have st: "map rstrip (map (\<lambda>l. l @ [LF]) K) = K"
    using assms(1) by (induction K) (simp_all add: rstrip_clean_LF)
  have rk: "records K = Rk"
    using records_concat [OF assms(2)] by (simp add: assms(3))
  show "fst (skip_scan m (file_lines (unlines K)) T p) = []"
    by (simp only: skip_scan_records fl st rk note_shorts_none [OF assms(4)])
  assume "K \<noteq> []"
  then have "file_lines (unlines K) \<noteq> []"
    by (simp add: fl)
  then have "fst (write_scan m' [] (file_lines (unlines K)) p) =
      kept_text [] p (file_lines (unlines K))"
    by (rule write_scan_text)
  also have "\<dots> = concat (map record_text Rk)"
    by (simp add: kept_text_def fl st rk not_skipped_empty del: map_map)
  also have "\<dots> = unlines K"
    by (simp add: unlines_concat assms(3))
  finally show "fst (write_scan m' [] (file_lines (unlines K)) p) = unlines K" .
qed

lemma rerun_core:
  assumes "\<forall>r\<in>set (file_records body). short_record T r \<longrightarrow>
             has_key k (parse_read_id (header r) p)"
  shows "fst (skip_scan m (file_lines (written k body p)) T p) = []"
    and "written k body p \<noteq> [] \<Longrightarrow>
         fst (write_scan m' [] (file_lines (written k body p)) p) = written k body p"
proof -
  define Rk where "Rk = (if file_lines body = [] then [[[]]]
      else filter (\<lambda>r. \<not> skipped k p r) (file_records body))"
  define K where "K = concat Rk"
  have w: "written k body p = unlines K"
  proof (cases "file_lines body = []")
    case True
    then show ?thesis
      by (simp add: written_def write_scan_empty K_def Rk_def unlines_def)
  next
    case False
    then show ?thesis
      by (simp add: written_def write_scan_text kept_text_def unlines_concat K_def Rk_def)
  qed
  have ch: "chunked Rk"
    by (simp add: Rk_def chunked_filter chunked_records)
  have "set K \<subseteq> insert [] (set (map rstrip (file_lines body)))"
  proof -
    have "set (concat (filter (\<lambda>r. \<not> skipped k p r) (file_records body))) \<subseteq>
        set (concat (file_records body))"
      by auto
    then show ?thesis
      by (auto simp: K_def Rk_def concat_records)
  qed
  moreover have "clean []"
    by (simp add: clean_def rstrip_def)
  ultimately have cl: "\<forall>l\<in>set K. clean l"
    using clean_rstrip_line [of _ body] by auto
  have ns: "\<forall>r\<in>set Rk. \<not> short_record T r"
  proof
    fix r assume r: "r \<in> set Rk"
    show "\<not> short_record T r"
    proof (cases "file_lines body = []")
      case True
      with r show ?thesis by (simp add: Rk_def short_record_def)
    next
      case False
      with r have in_R: "r \<in> set (file_records body)" and keep: "\<not> skipped k p r"
        by (simp_all add: Rk_def)
      show ?thesis
      proof
        assume sh: "short_record T r"
        with assms in_R have "has_key k (parse_read_id (header r) p)" by blast
        moreover from sh have "startswith (header r) ''@''"
          by (auto simp: short_record_def header_def split: list.splits)
        ultimately show False using keep by (simp add: skipped_def)
      qed
    qed
  qed
  show "fst (skip_scan m (file_lines (written k body p)) T p) = []"
    unfolding w by (rule second_pass(1) [OF cl ch K_def [symmetric] ns])
  assume "written k body p \<noteq> []"
  then have "K \<noteq> []"
    by (simp add: w unlines_Nil)
  then show "fst (write_scan m' [] (file_lines (written k body p)) p) = written k body p"
    unfolding w by (rule second_pass(2) [OF cl ch K_def [symmetric] ns])
qed

lemma skip_scan_skip_set: "fst (skip_scan msgs (file_lines body) T p) = skip_set body T p"
  by (simp add: skip_set_def skip_scan_records)

lemma write_scan_written: "fst (write_scan msgs k (file_lines body) p) = written k body p"
  by (cases "file_lines body = []") (simp_all add: written_def write_scan_text write_scan_empty)

lemma written_kept:
  "file_lines body \<noteq> [] \<Longrightarrow> written k body p = kept_text k p (file_lines body)"
  by (simp add: written_def write_scan_text)

lemma get_skip_ids_skip_set:
  "fs f = Some body \<Longrightarrow> \<exists>msgs. get_skip_ids fs (Some f) T p = Inr (skip_set body T p, msgs)"
  using get_skip_ids_file [of fs f body T p] skip_scan_skip_set [of "[Reading_input (Some f)]" body T p]
  by (metis prod.collapse)

lemma write_filtered_output_written:
  "fs f = Some body \<Longrightarrow> output_name ofile d \<noteq> f \<Longrightarrow>
   \<exists>msgs. write_filtered_output fs k ofile (Some f) p d =
     Inr (output_name ofile d, fs(output_name ofile d \<mapsto> written k body p), msgs)"
  using write_filtered_output_file [of fs f body ofile d k p]
  by (simp add: write_scan_written)

lemma skip_set_covers:
  "\<forall>r\<in>set (file_records body). short_record T r \<longrightarrow>
     has_key (skip_set body T p) (parse_read_id (header r) p)"
  by (auto simp: skip_set_def has_key_skip_scan)

lemma all_true_skip_set: "all_true (skip_set body T p)"
  by (simp add: skip_set_def all_true_skip_scan)

lemma merged_covers:
  assumes "merge_skip_ids (skip_set bf T p) (skip_set br T p) = Inr k"
  shows "\<forall>r\<in>set (file_records bf). short_record T r \<longrightarrow> has_key k (parse_read_id (header r) p)"
    and "\<forall>r\<in>set (file_records br). short_record T r \<longrightarrow> has_key k (parse_read_id (header r) p)"
  using skip_set_covers [of bf T p] skip_set_covers [of br T p]
  by (simp_all add: has_key_merged [OF assms all_true_skip_set all_true_skip_set])

lemma record_text_Nil: "record_text r = [] \<longleftrightarrow> r = []"
  by (cases r) (simp_all add: record_text_def)

lemma records_nonempty: "r \<in> set (records xs) \<Longrightarrow> r \<noteq> []"
  by (induction xs rule: records.induct) auto

lemma kept_text_Nil:
  "kept_text k p ls = [] \<longleftrightarrow> (\<forall>r\<in>set (records (map rstrip ls)). skipped k p r)"
  using records_nonempty [of _ "map rstrip ls"]
  by (auto simp: kept_text_def record_text_Nil)

lemma write_scan_Nil:
  "fst (write_scan msgs k ls p) = [] \<longleftrightarrow>
   ls \<noteq> [] \<and> (\<forall>r\<in>set (records (map rstrip ls)). skipped k p r)"
  by (cases "ls = []") (simp_all add: write_scan_empty write_scan_text kept_text_Nil)

section \<open>The identifier of a read\<close>

text \<open>
  C2. The two headers of one fragment, which differ only in the mate marker, should get
  the same identifier when the paired-end flag is set. The source names the pair
  \<open>@SRR5891520.1.1\<close> (forward) and \<open>@SRR5891520.1.2\<close> (reverse) in its comment, and
  does not bring them together: removing the last dot joins the marker to the number
  before it, the suffix pattern then finds no separator, and the two identifiers differ.
\<close>

theorem parse_read_id_dotted_mates_differ:
  "parse_read_id ''@SRR5891520.1.1'' True = ''@SRR5891520.11'' \<and>
   parse_read_id ''@SRR5891520.1.2'' True = ''@SRR5891520.12'' \<and>
   parse_read_id ''@SRR5891520.1.1'' True \<noteq> parse_read_id ''@SRR5891520.1.2'' True"
  by code_simp

text \<open>
  C3, as stated: \<open>@SIM.1/1\<close> and \<open>@SIM.1/2\<close> both become \<open>@SIM.1\<close>. The identifier
  of \<open>@SIM.1/1\<close> is not \<open>@SIM.1\<close>: the last dot is removed before the suffix.
\<close>

theorem parse_read_id_sim_not_dotted:
  "parse_read_id ''@SIM.1/1'' True \<noteq> ''@SIM.1''"
  by code_simp

text \<open>
  C3, amended: with the paired-end flag set, \<open>@SIM.1/1\<close> and \<open>@SIM.1/2\<close> both become
  \<open>@SIM1\<close>.
\<close>

theorem parse_read_id_sim:
  "parse_read_id ''@SIM.1/1'' True = ''@SIM1'' \<and> parse_read_id ''@SIM.1/2'' True = ''@SIM1''"
  by code_simp

section \<open>The name of the output file\<close>

text \<open>
  C6. The name of an output file with a mate tag should be the base name with the tag put
  before its extension, and nothing else changed. The substitutions of the source are
  not anchored at the end and their dot matches any character, so a base name that has
  the letters of the extension elsewhere loses them there too: the output for the base
  name \<open>run_fastq/sample.fastq\<close> and the tag \<open>R1\<close> goes to \<open>run/sample.R1.fastq\<close>,
  not to \<open>run_fastq/sample.R1.fastq\<close>.
\<close>

theorem output_name_changes_directory:
  "output_name ''run_fastq/sample.fastq'' (Some ''R1'') = ''run/sample.R1.fastq''"
  by code_simp

section \<open>An input without lines\<close>

text \<open>
  C10, as stated: for an input without lines one line feed is written, and the output
  is never empty. The last part fails: the write after the loop is left out when the
  last record is skipped, so an input whose records are all skipped gives an empty
  output file.
\<close>

theorem write_filtered_output_all_skipped:
  "\<exists>msgs. write_filtered_output one_short_file [(''@r1'', True)] ''out.fq'' (Some ''fwd.fq'')
            False None =
     Inr (''out.fq'', one_short_file(''out.fq'' \<mapsto> []), msgs)"
proof -
  have f: "one_short_file ''fwd.fq'' = Some ''@r1\<newline>ACGT\<newline>+\<newline>IIII\<newline>''"
    by (simp add: one_short_file_def)
  have n: "output_name ''out.fq'' None = ''out.fq''"
    by (simp add: output_name_def)
  have d: "output_name ''out.fq'' None \<noteq> ''fwd.fq''"
    unfolding n by simp
  have ne: "file_lines ''@r1\<newline>ACGT\<newline>+\<newline>IIII\<newline>'' \<noteq> []"
    by code_simp
  have kt: "kept_text [(''@r1'', True)] False (file_lines ''@r1\<newline>ACGT\<newline>+\<newline>IIII\<newline>'') = []"
    by code_simp
  have "written [(''@r1'', True)] ''@r1\<newline>ACGT\<newline>+\<newline>IIII\<newline>'' False = []"
    by (simp only: written_kept [OF ne] kt)
  with write_filtered_output_written [where fs = one_short_file and f = "''fwd.fq''"
      and body = "''@r1\<newline>ACGT\<newline>+\<newline>IIII\<newline>''" and ofile = "''out.fq''" and d = None
      and k = "[(''@r1'', True)]" and p = False, OF f d]
  show ?thesis
    unfolding n by simp
qed

text \<open>
  C10, amended: when the input file has no line, whatever the skip set, the write after
  the loop still happens with the empty buffer, and \<open>write_filtered_output\<close> writes one
  line feed, and nothing else, to the output file; so the output is not empty for an
  input without lines. The text written is empty exactly when the input has lines and
  every record of it is skipped.
\<close>

theorem write_filtered_output_empty_input:
  "write_filtered_output (fs(path \<mapsto> [])) k ofile (Some path) paired read_direction =
     Inr (output_name ofile read_direction,
          fs(path \<mapsto> [], output_name ofile read_direction \<mapsto> [LF]),
          [Writing_output (output_name ofile read_direction), Reads_processed 0])
   \<and> (fst (write_scan msgs k ls paired) = [] \<longleftrightarrow>
        ls \<noteq> [] \<and> (\<forall>r\<in>set (records (map rstrip ls)). skipped k paired r))"
proof
  show "write_filtered_output (fs(path \<mapsto> [])) k ofile (Some path) paired read_direction =
     Inr (output_name ofile read_direction,
          fs(path \<mapsto> [], output_name ofile read_direction \<mapsto> [LF]),
          [Writing_output (output_name ofile read_direction), Reads_processed 0])"
    by (simp add: write_filtered_output_def Let_def open_read_def write_scan_def write_init_def)
  show "fst (write_scan msgs k ls paired) = [] \<longleftrightarrow>
        ls \<noteq> [] \<and> (\<forall>r\<in>set (records (map rstrip ls)). skipped k paired r)"
    by (rule write_scan_Nil)
qed

text \<open>One record, skipped: nothing is written.\<close>

theorem write_filtered_output_empty_input_witness:
  "fst (write_scan [] [(''@r1'', True)]
     [''@r1\<newline>'', ''ACGT\<newline>'', ''+\<newline>'', ''IIII\<newline>''] False) = []"
proof -
  have "[''@r1\<newline>'', ''ACGT\<newline>'', ''+\<newline>'', ''IIII\<newline>''] \<noteq> [] \<and>
      (\<forall>r\<in>set (records (map rstrip [''@r1\<newline>'', ''ACGT\<newline>'', ''+\<newline>'', ''IIII\<newline>''])).
         skipped [(''@r1'', True)] False r)"
    by code_simp
  with write_filtered_output_empty_input [of _ _ "[(''@r1'', True)]" _ False _ "[]"
      "[''@r1\<newline>'', ''ACGT\<newline>'', ''+\<newline>'', ''IIII\<newline>'']"]
  show ?thesis by blast
qed

section \<open>The union of two skip sets\<close>

text \<open>
  C7. For two skip sets that \<open>get_skip_ids\<close> has produced, \<open>merge_skip_ids\<close> returns a
  dictionary (it does not take the way out through the mismatch), and the keys of that
  dictionary are the keys of the one and of the other.
\<close>

theorem merge_skip_ids_union:
  "get_skip_ids fs1 f1 T1 p1 = Inr (a, ma) \<Longrightarrow> get_skip_ids fs2 f2 T2 p2 = Inr (b, mb) \<Longrightarrow>
   \<exists>m. merge_skip_ids a b = Inr m \<and> set (keys m) = set (keys a) \<union> set (keys b)"
  by (rule merge_skip_ids_all_true) (erule get_skip_ids_all_true)+

text \<open>The skip sets of the two example files, read with length 5, and their union.\<close>

theorem merge_skip_ids_union_witness:
  "\<exists>m. merge_skip_ids [(''@a'', True)] [(''@b'', True)] = Inr m \<and>
       set (keys m) = set (keys [(''@a'', True)]) \<union> set (keys [(''@b'', True)])"
proof -
  define fwd where "fwd = skip_scan [Reading_input (Some ''fwd.fq'')]
     (file_lines ''@a/1\<newline>ACGT\<newline>+\<newline>IIII\<newline>@b/1\<newline>ACGTACGT\<newline>+\<newline>IIIIIIII\<newline>'') 5 True"
  define rev where "rev = skip_scan [Reading_input (Some ''rev.fq'')]
     (file_lines ''@a/2\<newline>ACGTAC\<newline>+\<newline>IIIIII\<newline>@b/2\<newline>ACG\<newline>+\<newline>III\<newline>'') 5 True"
  have f: "get_skip_ids two_files (Some ''fwd.fq'') 5 True = Inr (fst fwd, snd fwd)"
    by (simp add: get_skip_ids_def open_read_def two_files_def fwd_def)
  have r: "get_skip_ids two_files (Some ''rev.fq'') 5 True = Inr (fst rev, snd rev)"
    by (simp add: get_skip_ids_def open_read_def two_files_def rev_def)
  have a: "fst fwd = [(''@a'', True)]"
    unfolding fwd_def skip_scan_records by code_simp
  have b: "fst rev = [(''@b'', True)]"
    unfolding rev_def skip_scan_records by code_simp
  show ?thesis
    using merge_skip_ids_union [OF f r] unfolding a b .
qed

section \<open>What the writer writes\<close>

text \<open>
  C5, as stated: for every input and every skip set, the output is the records whose
  identifier is not in the skip set, their lines unchanged. It fails on a line with a
  blank at its end, which is written without that blank; on an input without lines,
  for which a line feed is written; and on a record whose header does not start with
  \<open>@\<close>, which is written although the skip set holds its identifier.
\<close>

theorem write_scan_not_claimed_output:
  "fst (write_scan [] [] [''@r1\<newline>'', ''ACGT \<newline>'', ''+\<newline>'', ''IIII\<newline>''] False)
     \<noteq> claimed_output [] False [''@r1\<newline>'', ''ACGT \<newline>'', ''+\<newline>'', ''IIII\<newline>'']
   \<and> fst (write_scan [] [(''@r1'', True)] [] False) \<noteq> claimed_output [(''@r1'', True)] False []
   \<and> fst (write_scan [] [(''r1'', True)] [''r1\<newline>'', ''ACGT\<newline>'', ''+\<newline>'', ''IIII\<newline>''] False)
     \<noteq> claimed_output [(''r1'', True)] False [''r1\<newline>'', ''ACGT\<newline>'', ''+\<newline>'', ''IIII\<newline>'']"
proof -
  have a: "kept_text [] False [''@r1\<newline>'', ''ACGT \<newline>'', ''+\<newline>'', ''IIII\<newline>'']
     \<noteq> claimed_output [] False [''@r1\<newline>'', ''ACGT \<newline>'', ''+\<newline>'', ''IIII\<newline>'']"
    by code_simp
  have b: "[LF] \<noteq> claimed_output [(''@r1'', True)] False []"
    by code_simp
  have c: "kept_text [(''r1'', True)] False [''r1\<newline>'', ''ACGT\<newline>'', ''+\<newline>'', ''IIII\<newline>'']
     \<noteq> claimed_output [(''r1'', True)] False [''r1\<newline>'', ''ACGT\<newline>'', ''+\<newline>'', ''IIII\<newline>'']"
    by code_simp
  show ?thesis
    using a b c by (simp add: write_scan_text write_scan_empty)
qed

text \<open>
  C5, amended: for an input of at least one line and every skip set, the output is the
  text of the records of the input, in the order of the input, without those whose
  header starts with \<open>@\<close> and whose identifier is in the skip set; the lines of a record
  are written without their trailing white space, each followed by a line feed. For an
  input without lines the output is one line feed.
\<close>

theorem write_scan_output:
  "fst (write_scan msgs k ls paired) = (if ls = [] then [LF] else kept_text k paired ls)"
  by (simp add: write_scan_text write_scan_empty)

section \<open>A run without short reads\<close>

text \<open>
  C8. When no record of the files of a run has a sequence line of length at most the
  threshold, the run leaves the file system as it was and reports that it found no
  reads to filter. And a run that changes the file system has a skip set that is not
  empty.
\<close>

theorem main_no_short_reads:
  assumes "forwardreads a = Some f" "fs f = Some tf"
    and "\<forall>x\<in>set (records (map rstrip (file_lines tf))). long_record (length_arg a) x"
    and "pairedend a \<and> \<not> interleaved a \<Longrightarrow>
         reversereads a = Some r \<and> fs r = Some tr \<and>
         (\<forall>x\<in>set (records (map rstrip (file_lines tr))). long_record (length_arg a) x)"
  shows "(\<exists>msgs. main a fs = Inr (fs, msgs @ [No_reads_found (length_arg a), Done])) \<and>
         (\<forall>b gs k m gs' ms. run_skip_ids b gs = Inr (k, m) \<longrightarrow> main b gs = Inr (gs', ms) \<longrightarrow>
            gs' \<noteq> gs \<longrightarrow> k \<noteq> [])"
proof
  from run_skip_ids_none [where fs = fs and f = f and r = r, OF assms] obtain msgs where "run_skip_ids a fs = Inr ([], msgs)"
    by blast
  then show "\<exists>msgs. main a fs = Inr (fs, msgs @ [No_reads_found (length_arg a), Done])"
    by (simp add: main_def)
next
  show "\<forall>b gs k m gs' ms. run_skip_ids b gs = Inr (k, m) \<longrightarrow> main b gs = Inr (gs', ms) \<longrightarrow>
            gs' \<noteq> gs \<longrightarrow> k \<noteq> []"
    by (auto simp: main_def)
qed

text \<open>The split paired-end run over the two example files with the threshold 2.\<close>

theorem main_no_short_reads_witness:
  "\<exists>msgs. main (paired_example 2) two_files = Inr (two_files, msgs @ [No_reads_found 2, Done])"
proof -
  have f: "forwardreads (paired_example 2) = Some ''fwd.fq''"
    by (simp add: paired_example_def)
  have tf: "two_files ''fwd.fq'' = Some ''@a/1\<newline>ACGT\<newline>+\<newline>IIII\<newline>@b/1\<newline>ACGTACGT\<newline>+\<newline>IIIIIIII\<newline>''"
    by (simp add: two_files_def)
  have lf: "\<forall>x\<in>set (records (map rstrip (file_lines
       ''@a/1\<newline>ACGT\<newline>+\<newline>IIII\<newline>@b/1\<newline>ACGTACGT\<newline>+\<newline>IIIIIIII\<newline>''))).
       long_record (length_arg (paired_example 2)) x"
    by code_simp
  have r: "reversereads (paired_example 2) = Some ''rev.fq'' \<and>
       two_files ''rev.fq'' = Some ''@a/2\<newline>ACGTAC\<newline>+\<newline>IIIIII\<newline>@b/2\<newline>ACG\<newline>+\<newline>III\<newline>'' \<and>
       (\<forall>x\<in>set (records (map rstrip (file_lines
       ''@a/2\<newline>ACGTAC\<newline>+\<newline>IIIIII\<newline>@b/2\<newline>ACG\<newline>+\<newline>III\<newline>''))).
       long_record (length_arg (paired_example 2)) x)"
    by code_simp
  have "length_arg (paired_example 2) = 2"
    by (simp add: paired_example_def)
  with main_no_short_reads [where fs = two_files and f = "''fwd.fq''" and r = "''rev.fq''", OF f tf lf r] show ?thesis
    by simp
qed

section \<open>A single-end run\<close>

text \<open>
  C4, as stated: a single-end run writes exactly the records whose sequence line is
  longer than the threshold. It fails when two records share an identifier and only
  one is short (both are left out), and when no record is short (nothing is written).
\<close>

theorem main_single_end_not_claimed:
  "\<not> (\<exists>msgs. main (single_example 5) mates_file =
         Inr (mates_file(''out.fq'' \<mapsto> claimed_single_end 5 (file_lines
           ''@f1 1:N:0\<newline>ACGT\<newline>+\<newline>IIII\<newline>@f1 2:N:0\<newline>ACGTACGT\<newline>+\<newline>IIIIIIII\<newline>'')), msgs))
   \<and> \<not> (\<exists>msgs. main (single_example 2) mates_file =
         Inr (mates_file(''out.fq'' \<mapsto> claimed_single_end 2 (file_lines
           ''@f1 1:N:0\<newline>ACGT\<newline>+\<newline>IIII\<newline>@f1 2:N:0\<newline>ACGTACGT\<newline>+\<newline>IIIIIIII\<newline>'')), msgs))"
proof
  let ?t = "''@f1 1:N:0\<newline>ACGT\<newline>+\<newline>IIII\<newline>@f1 2:N:0\<newline>ACGTACGT\<newline>+\<newline>IIIIIIII\<newline>''"
  have 1: "\<not> pairedend (single_example 5)"
    and 2: "forwardreads (single_example 5) = Some ''fwd.fq''"
    and 4: "outputfile (single_example 5) \<noteq> ''fwd.fq''"
    and 6: "outputfile (single_example 5) = ''out.fq''"
    by (simp_all add: single_example_def)
  have 3: "mates_file ''fwd.fq'' = Some ?t"
    by (simp add: mates_file_def)
  have 5: "\<exists>r\<in>set (records (map rstrip (file_lines ?t))).
       short_record (length_arg (single_example 5)) r"
    by code_simp
  have e: "concat (map record_text
       (filter (\<lambda>r. \<not> meets_short (length_arg (single_example 5)) False
            (records (map rstrip (file_lines ?t))) r)
          (records (map rstrip (file_lines ?t))))) = []"
    by code_simp
  have c: "claimed_single_end 5 (file_lines ?t) \<noteq> []"
    by code_simp
  from main_single_end_text [where fs = mates_file and f = "''fwd.fq''", OF 1 2 3 4 5] obtain m where
    "main (single_example 5) mates_file = Inr (mates_file(''out.fq'' \<mapsto> []), m)"
    unfolding kept_text_skip_scan e 6 by blast
  then show "\<not> (\<exists>msgs. main (single_example 5) mates_file =
         Inr (mates_file(''out.fq'' \<mapsto> claimed_single_end 5 (file_lines ?t)), msgs))"
    using c by (auto dest: fun_upd_eqD)
next
  let ?t = "''@f1 1:N:0\<newline>ACGT\<newline>+\<newline>IIII\<newline>@f1 2:N:0\<newline>ACGTACGT\<newline>+\<newline>IIIIIIII\<newline>''"
  have 2: "forwardreads (single_example 2) = Some ''fwd.fq''"
    and p: "pairedend (single_example 2) \<and> \<not> interleaved (single_example 2) \<Longrightarrow>
      reversereads (single_example 2) = Some [] \<and> mates_file [] = Some [] \<and>
      (\<forall>x\<in>set (records (map rstrip (file_lines []))). long_record (length_arg (single_example 2)) x)"
    by (simp_all add: single_example_def)
  have 3: "mates_file ''fwd.fq'' = Some ?t"
    by (simp add: mates_file_def)
  have l: "\<forall>x\<in>set (records (map rstrip (file_lines ?t))).
       long_record (length_arg (single_example 2)) x"
    by code_simp
  from run_skip_ids_none [where fs = mates_file and f = "''fwd.fq''", OF 2 3 l p] obtain m where
    "run_skip_ids (single_example 2) mates_file = Inr ([], m)"
    by blast
  then have m: "main (single_example 2) mates_file =
      Inr (mates_file, m @ [No_reads_found (length_arg (single_example 2)), Done])"
    by (rule main_none)
  have n: "mates_file ''out.fq'' = None"
    by (simp add: mates_file_def)
  define c where "c = claimed_single_end 2 (file_lines ?t)"
  have "mates_file \<noteq> mates_file(''out.fq'' \<mapsto> c)"
    using n by (metis fun_upd_same option.distinct(1))
  then show "\<not> (\<exists>msgs. main (single_example 2) mates_file =
         Inr (mates_file(''out.fq'' \<mapsto> claimed_single_end 2 (file_lines ?t)), msgs))"
    unfolding c_def [symmetric] m by simp
qed

text \<open>
  C4, amended: a single-end run whose input has a short record, and whose output path
  is not its input path, writes the records of the input but those that meet a short
  record, that is those whose header starts with \<open>@\<close> and whose identifier is that of a
  record with a sequence line of length at most the threshold. When every header starts
  with \<open>@\<close>, every record has a sequence line and no two records share an identifier,
  these are the records whose sequence line is longer than the threshold. The threshold
  defaults to 25.
\<close>

theorem main_single_end:
  assumes "\<not> pairedend a" "forwardreads a = Some f" "fs f = Some body" "outputfile a \<noteq> f"
    and "\<exists>r\<in>set (records (map rstrip (file_lines body))). short_record (length_arg a) r"
  shows "(\<exists>msgs. main a fs =
            Inr (fs(outputfile a \<mapsto> concat (map record_text
                   (filter (\<lambda>r. \<not> meets_short (length_arg a) False
                                (records (map rstrip (file_lines body))) r)
                      (records (map rstrip (file_lines body)))))), msgs))
       \<and> ((\<forall>r\<in>set (records (map rstrip (file_lines body))).
              startswith (header r) ''@'' \<and> 2 \<le> length r) \<longrightarrow>
          inj_on (\<lambda>r. parse_read_id (header r) False)
            (set (records (map rstrip (file_lines body)))) \<longrightarrow>
          filter (\<lambda>r. \<not> meets_short (length_arg a) False
                        (records (map rstrip (file_lines body))) r)
            (records (map rstrip (file_lines body)))
          = filter (long_record (length_arg a)) (records (map rstrip (file_lines body))))
       \<and> length_option None = 25"
  using main_single_end_text [where a = a and f = f and fs = fs and body = body, OF assms]
  by (simp add: kept_text_skip_scan filter_meets_short_distinct length_option_def default_len_def)

text \<open>The single-end run over the forward example file with the threshold 5.\<close>

theorem main_single_end_witness:
  "\<exists>msgs. main (single_example 5) two_files =
     Inr (two_files(''out.fq'' \<mapsto> ''@b/1\<newline>ACGTACGT\<newline>+\<newline>IIIIIIII\<newline>''), msgs)"
proof -
  have 1: "\<not> pairedend (single_example 5)"
    and 2: "forwardreads (single_example 5) = Some ''fwd.fq''"
    and 4: "outputfile (single_example 5) \<noteq> ''fwd.fq''"
    and 6: "outputfile (single_example 5) = ''out.fq''"
    by (simp_all add: single_example_def)
  have 3: "two_files ''fwd.fq'' =
      Some ''@a/1\<newline>ACGT\<newline>+\<newline>IIII\<newline>@b/1\<newline>ACGTACGT\<newline>+\<newline>IIIIIIII\<newline>''"
    by (simp add: two_files_def)
  have 5: "\<exists>r\<in>set (records (map rstrip (file_lines
       ''@a/1\<newline>ACGT\<newline>+\<newline>IIII\<newline>@b/1\<newline>ACGTACGT\<newline>+\<newline>IIIIIIII\<newline>''))).
       short_record (length_arg (single_example 5)) r"
    by code_simp
  have e: "concat (map record_text
       (filter (\<lambda>r. \<not> meets_short (length_arg (single_example 5)) False
            (records (map rstrip (file_lines
              ''@a/1\<newline>ACGT\<newline>+\<newline>IIII\<newline>@b/1\<newline>ACGTACGT\<newline>+\<newline>IIIIIIII\<newline>''))) r)
          (records (map rstrip (file_lines
              ''@a/1\<newline>ACGT\<newline>+\<newline>IIII\<newline>@b/1\<newline>ACGTACGT\<newline>+\<newline>IIIIIIII\<newline>'')))))
       = ''@b/1\<newline>ACGTACGT\<newline>+\<newline>IIIIIIII\<newline>''"
    by code_simp
  from main_single_end [where fs = two_files and f = "''fwd.fq''", OF 1 2 3 4 5] show ?thesis
    unfolding e 6 by blast
qed

section \<open>A split paired-end run\<close>




section \<open>Filtering the output again\<close>

text \<open>
  C9, as stated: a second run over the output of a first one, with the same flag and
  threshold, finds an empty skip set, and would write that output again unchanged. The
  second half fails when the first run has left out every record: its output is the
  empty text, and writing it again gives a line feed.
\<close>

theorem rerun_not_reproduced:
  "written [] (written (skip_set ''@r1\<newline>ACGT\<newline>+\<newline>IIII\<newline>'' 25 False) ''@r1\<newline>ACGT\<newline>+\<newline>IIII\<newline>'' False) False
     \<noteq> written (skip_set ''@r1\<newline>ACGT\<newline>+\<newline>IIII\<newline>'' 25 False) ''@r1\<newline>ACGT\<newline>+\<newline>IIII\<newline>'' False"
proof -
  have s: "skip_set ''@r1\<newline>ACGT\<newline>+\<newline>IIII\<newline>'' 25 False = [(''@r1'', True)]"
    unfolding skip_set_def skip_scan_records by code_simp
  have kt: "kept_text [(''@r1'', True)] False (file_lines ''@r1\<newline>ACGT\<newline>+\<newline>IIII\<newline>'') = []"
    by code_simp
  have ne: "file_lines ''@r1\<newline>ACGT\<newline>+\<newline>IIII\<newline>'' \<noteq> []"
    by code_simp
  have e: "written (skip_set ''@r1\<newline>ACGT\<newline>+\<newline>IIII\<newline>'' 25 False) ''@r1\<newline>ACGT\<newline>+\<newline>IIII\<newline>'' False = []"
    unfolding s by (simp only: written_kept [OF ne] kt)
  have "written [] [] False = [LF]"
    by (simp add: written_def write_scan_empty)
  then show ?thesis
    unfolding e by simp
qed

text \<open>
  C9, amended: the skip set of the output of a first run is empty, in the modes with
  one input (the skip set of the file itself) and in the split mode (the merged skip
  set, for both outputs, whose skip sets merge to the empty one); and writing an output
  again with the empty skip set gives the same text when that output is not empty.
\<close>

theorem rerun_drops_nothing:
  "skip_set (written (skip_set body T p) body p) T p = []
   \<and> (written (skip_set body T p) body p \<noteq> [] \<longrightarrow>
        written [] (written (skip_set body T p) body p) p = written (skip_set body T p) body p)
   \<and> (merge_skip_ids (skip_set bf T True) (skip_set br T True) = Inr k \<longrightarrow>
        merge_skip_ids (skip_set (written k bf True) T True) (skip_set (written k br True) T True)
          = Inr []
        \<and> (written k bf True \<noteq> [] \<longrightarrow> written [] (written k bf True) True = written k bf True)
        \<and> (written k br True \<noteq> [] \<longrightarrow> written [] (written k br True) True = written k br True))"
proof (intro conjI impI)
  show "skip_set (written (skip_set body T p) body p) T p = []"
    unfolding skip_set_def [of "written (skip_set body T p) body p"]
    by (rule rerun_core(1) [OF skip_set_covers])
  show "written [] (written (skip_set body T p) body p) p = written (skip_set body T p) body p"
    if "written (skip_set body T p) body p \<noteq> []"
    unfolding written_def [of "[]"]
    by (rule rerun_core(2) [OF skip_set_covers that])
next
  assume m: "merge_skip_ids (skip_set bf T True) (skip_set br T True) = Inr k"
  have "skip_set (written k bf True) T True = []"
    unfolding skip_set_def [of "written k bf True"]
    by (rule rerun_core(1) [OF merged_covers(1) [OF m]])
  moreover have "skip_set (written k br True) T True = []"
    unfolding skip_set_def [of "written k br True"]
    by (rule rerun_core(1) [OF merged_covers(2) [OF m]])
  ultimately show "merge_skip_ids (skip_set (written k bf True) T True)
      (skip_set (written k br True) T True) = Inr []"
    by (simp add: merge_skip_ids_empty)
  show "written [] (written k bf True) True = written k bf True" if "written k bf True \<noteq> []"
    unfolding written_def [of "[]"]
    by (rule rerun_core(2) [OF merged_covers(1) [OF m] that])
  show "written [] (written k br True) True = written k br True" if "written k br True \<noteq> []"
    unfolding written_def [of "[]"]
    by (rule rerun_core(2) [OF merged_covers(2) [OF m] that])
qed

text \<open>
  The forward example file with the threshold 5: the output holds the second record,
  its skip set is empty, and writing it again gives the same text.
\<close>

theorem rerun_drops_nothing_witness:
  "written (skip_set ''@a/1\<newline>ACGT\<newline>+\<newline>IIII\<newline>@b/1\<newline>ACGTACGT\<newline>+\<newline>IIIIIIII\<newline>'' 5 False) ''@a/1\<newline>ACGT\<newline>+\<newline>IIII\<newline>@b/1\<newline>ACGTACGT\<newline>+\<newline>IIIIIIII\<newline>'' False = ''@b/1\<newline>ACGTACGT\<newline>+\<newline>IIIIIIII\<newline>''
   \<and> skip_set ''@b/1\<newline>ACGTACGT\<newline>+\<newline>IIIIIIII\<newline>'' 5 False = []
   \<and> written [] ''@b/1\<newline>ACGTACGT\<newline>+\<newline>IIIIIIII\<newline>'' False = ''@b/1\<newline>ACGTACGT\<newline>+\<newline>IIIIIIII\<newline>''"
proof -
  have s: "skip_set ''@a/1\<newline>ACGT\<newline>+\<newline>IIII\<newline>@b/1\<newline>ACGTACGT\<newline>+\<newline>IIIIIIII\<newline>'' 5 False = [(''@a/1'', True)]"
    unfolding skip_set_def skip_scan_records by code_simp
  have kt: "kept_text [(''@a/1'', True)] False (file_lines ''@a/1\<newline>ACGT\<newline>+\<newline>IIII\<newline>@b/1\<newline>ACGTACGT\<newline>+\<newline>IIIIIIII\<newline>'') = ''@b/1\<newline>ACGTACGT\<newline>+\<newline>IIIIIIII\<newline>''"
    by code_simp
  have nl: "file_lines ''@a/1\<newline>ACGT\<newline>+\<newline>IIII\<newline>@b/1\<newline>ACGTACGT\<newline>+\<newline>IIIIIIII\<newline>'' \<noteq> []"
    by code_simp
  have e: "written (skip_set ''@a/1\<newline>ACGT\<newline>+\<newline>IIII\<newline>@b/1\<newline>ACGTACGT\<newline>+\<newline>IIIIIIII\<newline>'' 5 False) ''@a/1\<newline>ACGT\<newline>+\<newline>IIII\<newline>@b/1\<newline>ACGTACGT\<newline>+\<newline>IIIIIIII\<newline>'' False = ''@b/1\<newline>ACGTACGT\<newline>+\<newline>IIIIIIII\<newline>''"
    unfolding s by (simp only: written_kept [OF nl] kt)
  have ne: "''@b/1\<newline>ACGTACGT\<newline>+\<newline>IIIIIIII\<newline>'' \<noteq> []"
    by simp
  from rerun_drops_nothing [of "''@a/1\<newline>ACGT\<newline>+\<newline>IIII\<newline>@b/1\<newline>ACGTACGT\<newline>+\<newline>IIIIIIII\<newline>''" 5 False] show ?thesis
    unfolding e using ne by simp
qed

end
